theory Spec2Isabelle
  imports Main "HOL-Library.Sublist"
begin

section \<open>The type and syntax information the analyzer reads\<close>

text \<open>
  The analyzer works on go/types and go/ast values. The part of them that
  \<^verbatim>\<open>musttag.go\<close> inspects is modelled here:
  \<^item> a type is a basic type, a pointer, a reference to a named type, a struct with its
    fields in declaration order, or one of the remaining kinds the code never looks into;
  \<^item> a struct field carries its name, the result of \<^verbatim>\<open>Exported()\<close>, its raw tag
    string (\<^verbatim>\<open>s.Tag(i)\<close>) and its type;
  \<^item> a named type is looked up in the table of declarations, which gives the position of
    its defining identifier (\<^verbatim>\<open>Obj().Pos()\<close>) and its underlying type. Named types
    are references into this table, so a declaration may mention itself.
\<close>

type_synonym pos = int

datatype ty =
    Basic string
  | Pointer ty
  | Named string
  | Struct "field list"
  | Interface
  | MapT ty ty
  | Slice ty
and field =
    Field (fname: string) (exported: bool) (ftag: string) (ftype: ty)

record named_decl =
  obj_pos :: pos
  underlying_ty :: ty

type_synonym decls = "string \<rightharpoonup> named_decl"

text \<open>\<^verbatim>\<open>token.NoPos\<close> and the type go/types gives to a name it could not resolve.\<close>

definition NoPos :: pos where
  "NoPos = 0"

definition Invalid :: ty where
  "Invalid = Basic ''invalid type''"

text \<open>\<^verbatim>\<open>t.Underlying()\<close>: a named type answers with its declaration's underlying
  type, every other type with itself.\<close>

definition Underlying :: "decls \<Rightarrow> ty \<Rightarrow> ty" where
  "Underlying env t =
     (case t of
        Named n \<Rightarrow> (case env n of Some d \<Rightarrow> underlying_ty d | None \<Rightarrow> Invalid)
      | _ \<Rightarrow> t)"

text \<open>\<^verbatim>\<open>named.Obj().Pos()\<close>.\<close>

definition named_pos :: "decls \<Rightarrow> string \<Rightarrow> pos" where
  "named_pos env n = (case env n of Some d \<Rightarrow> obj_pos d | None \<Rightarrow> NoPos)"

text \<open>\<^verbatim>\<open>if ptr, ok := t.(*types.Pointer); ok { t = ptr.Elem() }\<close>: one pointer is
  removed, a second one stays.\<close>

definition deref :: "ty \<Rightarrow> ty" where
  "deref t = (case t of Pointer e \<Rightarrow> e | _ \<Rightarrow> t)"

text \<open>The type assertion \<^verbatim>\<open>.(*types.Struct)\<close>.\<close>

definition asStruct :: "ty \<Rightarrow> field list option" where
  "asStruct t = (case t of Struct fs \<Rightarrow> Some fs | _ \<Rightarrow> None)"

text \<open>The end of \<^verbatim>\<open>checkStruct\<close>'s loop body, reached when a nested struct failed:
  \<^verbatim>\<open>if named, ok := t.(*types.Named); ok { *pos = named.Obj().Pos() }\<close>. The result
  is the position stored at \<^verbatim>\<open>pos\<close> afterwards.\<close>

definition update_pos :: "decls \<Rightarrow> ty \<Rightarrow> pos \<Rightarrow> pos" where
  "update_pos env t p = (case t of Named n \<Rightarrow> named_pos env n | _ \<Rightarrow> p)"

section \<open>Struct tags\<close>

text \<open>\<^verbatim>\<open>strings.Split(s, sep)\<close> for a separator of one byte: the pieces between
  the separators, empty pieces included; the empty string gives one empty piece.\<close>

fun Split :: "string \<Rightarrow> char \<Rightarrow> string list" where
  "Split [] c = [[]]"
| "Split (x # xs) c =
     (if x = c then [] # Split xs c
      else (case Split xs c of
              [] \<Rightarrow> [[x]]
            | t # ts \<Rightarrow> (x # t) # ts))"

text \<open>\<^verbatim>\<open>strings.HasPrefix(s, prefix)\<close> is
  \<^verbatim>\<open>len(s) >= len(prefix) && s[:len(prefix)] == prefix\<close>.\<close>

definition HasPrefix :: "string \<Rightarrow> string \<Rightarrow> bool" where
  "HasPrefix s p \<longleftrightarrow> length p \<le> length s \<and> take (length p) s = p"

text \<open>The inner loop of \<^verbatim>\<open>checkStruct\<close>: the flag starts false and is set by
  every piece of the tag that starts with the key and a colon.\<close>

definition is_tagged :: "string \<Rightarrow> string \<Rightarrow> bool" where
  "is_tagged raw tag =
     fold (\<lambda>t tagged. if HasPrefix t (tag @ '':'') then True else tagged)
          (Split raw (CHR '' '')) False"

section \<open>checkStruct\<close>

text \<open>
  \<^verbatim>\<open>checkStruct(s, tag, pos)\<close> returns a flag and writes through \<^verbatim>\<open>pos\<close>; the model
  returns the flag together with the position stored at \<^verbatim>\<open>pos\<close> on return. The list
  argument holds the fields the loop has still to visit, so the call of the source is
  the call on all the fields of \<^verbatim>\<open>s\<close>. The function calls itself on the fields of a
  nested struct, and nothing bounds that recursion: a call that does not return has the
  value \<open>None\<close>.
\<close>

partial_function (option) checkStruct ::
  "decls \<Rightarrow> field list \<Rightarrow> string \<Rightarrow> pos \<Rightarrow> (bool \<times> pos) option"
where
  "checkStruct env fs tag pos =
     (case fs of
        [] \<Rightarrow> Some (True, pos)
      | f # rest \<Rightarrow>
          if \<not> exported f then checkStruct env rest tag pos
          else if \<not> is_tagged (ftag f) tag then Some (False, pos)
          else
            (case asStruct (Underlying env (deref (ftype f))) of
               None \<Rightarrow> checkStruct env rest tag pos
             | Some nested \<Rightarrow>
                 Option.bind (checkStruct env nested tag pos)
                   (\<lambda>r. if fst r then checkStruct env rest tag (snd r)
                        else Some (False, update_pos env (deref (ftype f)) (snd r)))))"

section \<open>Calls, expressions and the analysis pass\<close>

text \<open>
  Of an expression the analyzer inspects only its syntactic shape: an identifier with the
  position of the object it resolves to (\<^verbatim>\<open>arg.Obj\<close> is nil for an identifier the
  parser did not resolve), a composite literal with its position, a unary expression
  with its operand, or anything else. Of a call it reads the full name of the static
  callee (absent when \<^verbatim>\<open>typeutil.StaticCallee\<close> returns nil) and the arguments.
\<close>

datatype expr =
    Ident string "pos option"
  | CompositeLit pos
  | UnaryExpr expr
  | OtherExpr nat

record call_expr =
  static_callee :: "string option"
  Args :: "expr list"

record pass =
  TypeOf :: "expr \<Rightarrow> ty option"
  type_decls :: decls
  calls :: "call_expr list"

text \<open>The two run-time panics the code can raise.\<close>

datatype panic = IndexOutOfRange | NilDereference

text \<open>\<^verbatim>\<open>call.Args[i]\<close>: Go checks the index.\<close>

definition index :: "'a list \<Rightarrow> nat \<Rightarrow> panic + 'a" where
  "index xs i = (if i < length xs then Inr (xs ! i) else Inl IndexOutOfRange)"

definition jsonTag :: string where
  "jsonTag = ''json''"

definition tagAndExpr :: "call_expr \<Rightarrow> panic + (string \<times> expr) option" where
  "tagAndExpr call =
     (case static_callee call of
        None \<Rightarrow> Inr None
      | Some fullName \<Rightarrow>
          if fullName \<in> {''encoding/json.Marshal'', ''encoding/json.MarshalIndent'',
                          ''(*encoding/json.Encoder).Encode'',
                          ''(*encoding/json.Decoder).Decode''}
          then (case index (Args call) 0 of
                  Inl e \<Rightarrow> Inl e
                | Inr a \<Rightarrow> Inr (Some (jsonTag, a)))
          else if fullName = ''encoding/json.Unmarshal''
          then (case index (Args call) 1 of
                  Inl e \<Rightarrow> Inl e
                | Inr a \<Rightarrow> Inr (Some (jsonTag, a)))
          else Inr None)"

text \<open>
  \<^verbatim>\<open>structAndPos\<close>: the struct to check and the position to report. The static type
  loses one pointer; a named type with a struct underneath is reported at its
  declaration; an anonymous struct is reported at the variable or the literal the
  expression consists of, after one unary operator has been removed.
\<close>

definition structAndPos :: "pass \<Rightarrow> expr \<Rightarrow> panic + (field list \<times> pos) option" where
  "structAndPos p e =
     (case TypeOf p e of
        None \<Rightarrow> Inr None
      | Some t0 \<Rightarrow>
          (case deref t0 of
             Named n \<Rightarrow>
               (case asStruct (Underlying (type_decls p) (Named n)) of
                  Some s \<Rightarrow> Inr (Some (s, named_pos (type_decls p) n))
                | None \<Rightarrow> Inr None)
           | Struct s \<Rightarrow>
               (case (case e of UnaryExpr x \<Rightarrow> x | _ \<Rightarrow> e) of
                  Ident name obj \<Rightarrow>
                    (case obj of
                       None \<Rightarrow> Inl NilDereference
                     | Some declared \<Rightarrow> Inr (Some (s, declared)))
                | CompositeLit at \<Rightarrow> Inr (Some (s, at))
                | _ \<Rightarrow> Inr None)
           | _ \<Rightarrow> Inr None))"

section \<open>run\<close>

text \<open>
  The state of one run: the map \<^verbatim>\<open>reported\<close>, used as a set of (position, tag)
  pairs, and the calls of \<^verbatim>\<open>pass.Reportf\<close> made so far, each with its position and
  its format argument. The format string is the constant
  \<^verbatim>\<open>exported fields should be annotated with the %q tag\<close>.
\<close>

record run_state =
  reported :: "(pos \<times> string) set"
  diagnostics :: "(pos \<times> string) list"

definition init_state :: run_state where
  "init_state = \<lparr>reported = {}, diagnostics = []\<rparr>"

text \<open>The function \<^verbatim>\<open>run\<close> hands to \<^verbatim>\<open>inspect.Preorder\<close>, for one call. A panic
  ends the run; a \<^verbatim>\<open>checkStruct\<close> that does not return leaves the run without a
  result.\<close>

definition visit :: "pass \<Rightarrow> run_state \<Rightarrow> call_expr \<Rightarrow> (panic + run_state) option" where
  "visit p st call =
     (case tagAndExpr call of
        Inl e \<Rightarrow> Some (Inl e)
      | Inr None \<Rightarrow> Some (Inr st)
      | Inr (Some (tag, e)) \<Rightarrow>
          (case structAndPos p e of
             Inl e \<Rightarrow> Some (Inl e)
           | Inr None \<Rightarrow> Some (Inr st)
           | Inr (Some (s, pos0)) \<Rightarrow>
               (case checkStruct (type_decls p) s tag pos0 of
                  None \<Rightarrow> None
                | Some (ok, pos1) \<Rightarrow>
                    if ok then Some (Inr st)
                    else if (pos1, tag) \<in> reported st then Some (Inr st)
                    else Some (Inr \<lparr>reported = insert (pos1, tag) (reported st),
                                     diagnostics = diagnostics st @ [(pos1, tag)]\<rparr>))))"

text \<open>\<^verbatim>\<open>inspect.Preorder\<close> calls the function on every call expression in turn.\<close>

fun preorder :: "pass \<Rightarrow> run_state \<Rightarrow> call_expr list \<Rightarrow> (panic + run_state) option" where
  "preorder p st [] = Some (Inr st)"
| "preorder p st (c # cs) =
     (case visit p st c of
        None \<Rightarrow> None
      | Some (Inl e) \<Rightarrow> Some (Inl e)
      | Some (Inr st') \<Rightarrow> preorder p st' cs)"

definition run :: "pass \<Rightarrow> (panic + run_state) option" where
  "run p = preorder p init_state (calls p)"

section \<open>Notions of the specification\<close>

text \<open>
  Compliance as the specification words it: every exported field carries the tag, and
  every struct nested in such a field (below at most one pointer) is compliant in turn.
  The predicate is the least one closed under this rule, so a struct is compliant when
  the rule establishes it in finitely many steps.
\<close>

inductive compliant :: "decls \<Rightarrow> string \<Rightarrow> field list \<Rightarrow> bool"
  for env :: decls and tag :: string
where
  compliantI:
    "(\<And>f. f \<in> set fs \<Longrightarrow> exported f \<Longrightarrow> is_tagged (ftag f) tag) \<Longrightarrow>
     (\<And>f nested. f \<in> set fs \<Longrightarrow> exported f \<Longrightarrow>
         asStruct (Underlying env (deref (ftype f))) = Some nested \<Longrightarrow>
         compliant env tag nested) \<Longrightarrow>
     compliant env tag fs"

text \<open>
  The tokens of a tag string: the maximal runs of characters between separators, where
  \<open>sep\<close> says which characters separate. With \<open>is_space\<close> this is splitting on
  whitespace, the bytes Go's \<^verbatim>\<open>unicode.IsSpace\<close> accepts below 128.
\<close>

function tokens :: "(char \<Rightarrow> bool) \<Rightarrow> string \<Rightarrow> string list" where
  "tokens sep s =
     takeWhile (\<lambda>c. \<not> sep c) s #
       (case dropWhile (\<lambda>c. \<not> sep c) s of
          [] \<Rightarrow> []
        | x # rest \<Rightarrow> tokens sep rest)"
  by pat_completeness auto
termination
proof (relation "measure (\<lambda>(sep, s). length s)")
  show "wf (measure (\<lambda>(sep, s). length s))" by simp
next
  fix sep :: "char \<Rightarrow> bool" and s :: string and x rest
  assume "dropWhile (\<lambda>c. \<not> sep c) s = x # rest"
  then have "length rest < length (dropWhile (\<lambda>c. \<not> sep c) s)" by simp
  also have "\<dots> \<le> length s" by (rule length_dropWhile_le)
  finally show "((sep, rest), (sep, s)) \<in> measure (\<lambda>(sep, s). length s)" by simp
qed

declare tokens.simps [simp del]

definition is_space :: "char \<Rightarrow> bool" where
  "is_space c \<longleftrightarrow> c \<in> {CHR 0x09, CHR 0x0A, CHR 0x0B, CHR 0x0C, CHR 0x0D, CHR 0x20}"

definition has_token :: "(char \<Rightarrow> bool) \<Rightarrow> string \<Rightarrow> string \<Rightarrow> bool" where
  "has_token sep raw key \<longleftrightarrow> (\<exists>t \<in> set (tokens sep raw). prefix (key @ '':'') t)"

text \<open>
  A call \<open>c\<close> fails at \<open>(pos1, tag)\<close> when it is a matched call whose argument
  resolves to a struct that \<open>checkStruct\<close> rejects for \<open>tag\<close>, leaving the position
  \<open>pos1\<close>: the pair \<^verbatim>\<open>run\<close> is about to report.
\<close>

definition fails_at :: "pass \<Rightarrow> call_expr \<Rightarrow> pos \<Rightarrow> string \<Rightarrow> bool" where
  "fails_at p c pos1 tag =
     (case tagAndExpr c of
        Inr (Some (t, e)) \<Rightarrow>
          t = tag \<and>
          (case structAndPos p e of
             Inr (Some (s, pos0)) \<Rightarrow> checkStruct (type_decls p) s t pos0 = Some (False, pos1)
           | _ \<Rightarrow> False)
      | _ \<Rightarrow> False)"

text \<open>
  The named types \<open>checkStruct\<close> can enter from a type, or from a field after its one
  pointer is removed: the name itself, or the names below the fields of an anonymous
  struct. Declarations are well ranked when every named struct ranks above the named
  types it can enter, which rules out a struct that nests itself.
\<close>

fun names_under :: "ty \<Rightarrow> string set" and field_names :: "field \<Rightarrow> string set" where
  "names_under (Named n) = {n}"
| "names_under (Struct fs) = (\<Union>f \<in> set fs. field_names f)"
| "names_under (Basic b) = {}"
| "names_under (Pointer t) = {}"
| "names_under Interface = {}"
| "names_under (MapT k v) = {}"
| "names_under (Slice t) = {}"
| "field_names (Field name ex raw (Pointer t)) = names_under t"
| "field_names (Field name ex raw (Named n)) = {n}"
| "field_names (Field name ex raw (Struct fs)) = (\<Union>f \<in> set fs. field_names f)"
| "field_names (Field name ex raw (Basic b)) = {}"
| "field_names (Field name ex raw Interface) = {}"
| "field_names (Field name ex raw (MapT k v)) = {}"
| "field_names (Field name ex raw (Slice t)) = {}"

definition well_ranked :: "decls \<Rightarrow> (string \<Rightarrow> nat) \<Rightarrow> bool" where
  "well_ranked env rank \<longleftrightarrow>
     (\<forall>n d fs. env n = Some d \<and> underlying_ty d = Struct fs \<longrightarrow>
        (\<forall>m \<in> names_under (Struct fs). rank m < rank n))"

section \<open>Example declarations\<close>

text \<open>
  \<^verbatim>\<open>
  type Node struct {
      Value int   `json:"value"`
      Next  *Node `json:"next"`
  }
  type Outer struct { Mid Mid `json:"mid"` }
  type Mid struct { Inner *Inner `json:"inner"` }
  type Inner struct { Value int }
  type Wrapper struct {
      In struct { Inner Inner `json:"inner"` } `json:"in"`
  }
  type Good struct {
      Name   string `json:"name"`
      Nested *Leaf  `json:"nested"`
      hidden Inner
  }
  type Leaf struct { ID int `xml:"id" json:"id"` }
  \<close>
\<close>

definition Node_fields :: "field list" where
  "Node_fields =
     [Field ''Value'' True (''json:'' @ [CHR 0x22] @ ''value'' @ [CHR 0x22]) (Basic ''int''),
      Field ''Next'' True (''json:'' @ [CHR 0x22] @ ''next'' @ [CHR 0x22]) (Pointer (Named ''Node''))]"

definition Outer_fields :: "field list" where
  "Outer_fields =
     [Field ''Mid'' True (''json:'' @ [CHR 0x22] @ ''mid'' @ [CHR 0x22]) (Named ''Mid'')]"

definition Mid_fields :: "field list" where
  "Mid_fields =
     [Field ''Inner'' True (''json:'' @ [CHR 0x22] @ ''inner'' @ [CHR 0x22]) (Pointer (Named ''Inner''))]"

definition Inner_fields :: "field list" where
  "Inner_fields = [Field ''Value'' True [] (Basic ''int'')]"

definition Wrapper_fields :: "field list" where
  "Wrapper_fields =
     [Field ''In'' True (''json:'' @ [CHR 0x22] @ ''in'' @ [CHR 0x22])
        (Struct [Field ''Inner'' True (''json:'' @ [CHR 0x22] @ ''inner'' @ [CHR 0x22])
                   (Named ''Inner'')])]"

definition Leaf_fields :: "field list" where
  "Leaf_fields =
     [Field ''ID'' True
        (''xml:'' @ [CHR 0x22] @ ''id'' @ [CHR 0x22] @ '' json:'' @ [CHR 0x22] @ ''id'' @ [CHR 0x22])
        (Basic ''int'')]"

definition Good_fields :: "field list" where
  "Good_fields =
     [Field ''Name'' True (''json:'' @ [CHR 0x22] @ ''name'' @ [CHR 0x22]) (Basic ''string''),
      Field ''Nested'' True (''json:'' @ [CHR 0x22] @ ''nested'' @ [CHR 0x22]) (Pointer (Named ''Leaf'')),
      Field ''hidden'' False [] (Named ''Inner'')]"

definition example_decls :: decls where
  "example_decls =
     [''Node'' \<mapsto> \<lparr>obj_pos = 100, underlying_ty = Struct Node_fields\<rparr>,
      ''Outer'' \<mapsto> \<lparr>obj_pos = 10, underlying_ty = Struct Outer_fields\<rparr>,
      ''Mid'' \<mapsto> \<lparr>obj_pos = 20, underlying_ty = Struct Mid_fields\<rparr>,
      ''Inner'' \<mapsto> \<lparr>obj_pos = 30, underlying_ty = Struct Inner_fields\<rparr>,
      ''Wrapper'' \<mapsto> \<lparr>obj_pos = 40, underlying_ty = Struct Wrapper_fields\<rparr>,
      ''Good'' \<mapsto> \<lparr>obj_pos = 50, underlying_ty = Struct Good_fields\<rparr>,
      ''Leaf'' \<mapsto> \<lparr>obj_pos = 60, underlying_ty = Struct Leaf_fields\<rparr>]"

definition example_rank :: "string \<Rightarrow> nat" where
  "example_rank n =
     (if n = ''Outer'' then 2
      else if n = ''Mid'' \<or> n = ''Wrapper'' \<or> n = ''Good'' then 1
      else 0)"

text \<open>
  A package using these types:
  \<^verbatim>\<open>
  var outer *Outer
  var good Good
  var anon struct { Value int }

  json.Marshal(outer)
  json.NewEncoder(w).Encode(outer)
  json.Marshal(good)
  fmt.Println(good)
  \<close>
  and, for the single calls examined below, a function \<^verbatim>\<open>pair\<close> with the results
  \<^verbatim>\<open>([]byte, *struct{ Value int })\<close>, a function \<^verbatim>\<open>get\<close> with the result
  \<^verbatim>\<open>*struct{ Value int }\<close> and the variables \<^verbatim>\<open>pp **Outer\<close> and
  \<^verbatim>\<open>node Node\<close>.
\<close>

text \<open>A tag whose two pairs are separated by a tab:
  \<^verbatim>\<open>xml:"id"<TAB>json:"id"\<close>.\<close>

definition tab_tag :: string where
  "tab_tag =
     ''xml:'' @ [CHR 0x22] @ ''id'' @ [CHR 0x22, CHR 0x09] @ ''json:'' @ [CHR 0x22] @ ''id'' @ [CHR 0x22]"

definition example_types :: "(expr \<times> ty) list" where
  "example_types =
     [(Ident ''outer'' (Some 200), Pointer (Named ''Outer'')),
      (Ident ''good'' (Some 210), Named ''Good''),
      (Ident ''anon'' (Some 220), Struct Inner_fields),
      (UnaryExpr (Ident ''anon'' (Some 220)), Pointer (Struct Inner_fields)),
      (Ident ''pp'' (Some 230), Pointer (Pointer (Named ''Outer''))),
      (Ident ''node'' (Some 240), Named ''Node''),
      (OtherExpr 0, Pointer (Struct Inner_fields)),
      (OtherExpr 1, Basic ''tuple'')]"

definition marshal_outer :: call_expr where
  "marshal_outer =
     \<lparr>static_callee = Some ''encoding/json.Marshal'', Args = [Ident ''outer'' (Some 200)]\<rparr>"

definition encode_outer :: call_expr where
  "encode_outer =
     \<lparr>static_callee = Some ''(*encoding/json.Encoder).Encode'',
      Args = [Ident ''outer'' (Some 200)]\<rparr>"

definition marshal_good :: call_expr where
  "marshal_good =
     \<lparr>static_callee = Some ''encoding/json.Marshal'', Args = [Ident ''good'' (Some 210)]\<rparr>"

definition println_good :: call_expr where
  "println_good =
     \<lparr>static_callee = Some ''fmt.Println'', Args = [Ident ''good'' (Some 210)]\<rparr>"

definition example_calls :: "call_expr list" where
  "example_calls = [marshal_outer, encode_outer, marshal_good, println_good]"

definition example_pass :: pass where
  "example_pass =
     \<lparr>TypeOf = map_of example_types, type_decls = example_decls, calls = example_calls\<rparr>"

text \<open>\<^verbatim>\<open>json.Marshal(node)\<close>.\<close>

definition marshal_node :: call_expr where
  "marshal_node =
     \<lparr>static_callee = Some ''encoding/json.Marshal'', Args = [Ident ''node'' (Some 240)]\<rparr>"

text \<open>\<^verbatim>\<open>json.Unmarshal(pair())\<close>: a valid call with one argument expression.\<close>

definition unmarshal_pair :: call_expr where
  "unmarshal_pair = \<lparr>static_callee = Some ''encoding/json.Unmarshal'', Args = [OtherExpr 1]\<rparr>"

section \<open>Basic facts about checkStruct\<close>

text \<open>One round of the loop.\<close>

lemma checkStruct_Nil: "checkStruct env [] tag pos = Some (True, pos)"
  by (subst checkStruct.simps) simp

lemma checkStruct_Cons:
  "checkStruct env (f # rest) tag pos =
     (if \<not> exported f then checkStruct env rest tag pos
      else if \<not> is_tagged (ftag f) tag then Some (False, pos)
      else (case asStruct (Underlying env (deref (ftype f))) of
               None \<Rightarrow> checkStruct env rest tag pos
             | Some nested \<Rightarrow>
                 Option.bind (checkStruct env nested tag pos)
                   (\<lambda>r. if fst r then checkStruct env rest tag (snd r)
                        else Some (False, update_pos env (deref (ftype f)) (snd r)))))"
  by (subst checkStruct.simps) simp

lemma checkStruct_returns_induct [consumes 1, case_names Nil Skip Untagged Plain NestedOk NestedFail]:
  assumes ret: "checkStruct env fs tag pos = Some r"
    and Nil: "\<And>pos. P [] pos (True, pos)"
    and Skip: "\<And>f rest pos r. \<not> exported f \<Longrightarrow> checkStruct env rest tag pos = Some r \<Longrightarrow>
                 P rest pos r \<Longrightarrow> P (f # rest) pos r"
    and Untagged: "\<And>f rest pos. exported f \<Longrightarrow> \<not> is_tagged (ftag f) tag \<Longrightarrow>
                 P (f # rest) pos (False, pos)"
    and Plain: "\<And>f rest pos r. exported f \<Longrightarrow> is_tagged (ftag f) tag \<Longrightarrow>
                 asStruct (Underlying env (deref (ftype f))) = None \<Longrightarrow>
                 checkStruct env rest tag pos = Some r \<Longrightarrow> P rest pos r \<Longrightarrow> P (f # rest) pos r"
    and NestedOk: "\<And>f rest pos nested p1 r. exported f \<Longrightarrow> is_tagged (ftag f) tag \<Longrightarrow>
                 asStruct (Underlying env (deref (ftype f))) = Some nested \<Longrightarrow>
                 checkStruct env nested tag pos = Some (True, p1) \<Longrightarrow> P nested pos (True, p1) \<Longrightarrow>
                 checkStruct env rest tag p1 = Some r \<Longrightarrow> P rest p1 r \<Longrightarrow> P (f # rest) pos r"
    and NestedFail: "\<And>f rest pos nested p1. exported f \<Longrightarrow> is_tagged (ftag f) tag \<Longrightarrow>
                 asStruct (Underlying env (deref (ftype f))) = Some nested \<Longrightarrow>
                 checkStruct env nested tag pos = Some (False, p1) \<Longrightarrow> P nested pos (False, p1) \<Longrightarrow>
                 P (f # rest) pos (False, update_pos env (deref (ftype f)) p1)"
  shows "P fs pos r"
proof -
  let ?Q = "\<lambda>env' fs tag' pos r.
              env' = env \<and> tag' = tag \<longrightarrow> checkStruct env fs tag pos = Some r \<and> P fs pos r"
  have "?Q env fs tag pos r"
  proof (rule checkStruct.raw_induct [where P = ?Q, OF _ ret])
    fix cs env' fs tag' pos r
    assume IH: "\<And>env' fs tag' pos r. cs env' fs tag' pos = Some r \<Longrightarrow> ?Q env' fs tag' pos r"
      and body: "(case fs of [] \<Rightarrow> Some (True, pos)
        | f # rest \<Rightarrow>
            if \<not> exported f then cs env' rest tag' pos
            else if \<not> is_tagged (ftag f) tag' then Some (False, pos)
                 else case asStruct (Underlying env' (deref (ftype f))) of
                      None \<Rightarrow> cs env' rest tag' pos
                      | Some nested \<Rightarrow>
                          Option.bind (cs env' nested tag' pos)
                           (\<lambda>r. if fst r then cs env' rest tag' (snd r)
                                else Some (False, update_pos env' (deref (ftype f)) (snd r)))) = Some r"
    show "?Q env' fs tag' pos r"
    proof (intro impI, elim conjE)
      assume e: "env' = env" "tag' = tag"
      have IH': "\<And>fs pos r. cs env fs tag pos = Some r \<Longrightarrow> checkStruct env fs tag pos = Some r \<and> P fs pos r"
        using IH by blast
      show "checkStruct env fs tag pos = Some r \<and> P fs pos r"
      proof (cases fs)
        case Nil
        with body show ?thesis by (auto simp: checkStruct_Nil assms(2))
      next
        case (Cons f rest)
        show ?thesis
        proof (cases "exported f")
          case False
          with body Cons e have "cs env rest tag pos = Some r" by simp
          from IH'[OF this] False Cons show ?thesis
            by (simp add: checkStruct_Cons Skip)
        next
          case ex: True
          show ?thesis
          proof (cases "is_tagged (ftag f) tag")
            case False
            with body Cons e ex have "r = (False, pos)" by simp
            with False ex Cons show ?thesis by (simp add: checkStruct_Cons Untagged)
          next
            case tg: True
            show ?thesis
            proof (cases "asStruct (Underlying env (deref (ftype f)))")
              case None
              with body Cons e ex tg have "cs env rest tag pos = Some r" by simp
              from IH'[OF this] None ex tg Cons show ?thesis
                by (simp add: checkStruct_Cons Plain)
            next
              case (Some nested)
              with body Cons e ex tg obtain r1 where
                r1: "cs env nested tag pos = Some r1"
                and k: "(if fst r1 then cs env rest tag (snd r1)
                         else Some (False, update_pos env (deref (ftype f)) (snd r1))) = Some r"
                by (auto split: bind_splits)
              from IH'[OF r1] have n1: "checkStruct env nested tag pos = Some r1" "P nested pos r1"
                by simp_all
              show ?thesis
              proof (cases "fst r1")
                case True
                with k have "cs env rest tag (snd r1) = Some r" by simp
                from IH'[OF this] have n2: "checkStruct env rest tag (snd r1) = Some r" "P rest (snd r1) r"
                  by simp_all
                from True n1 have n1': "checkStruct env nested tag pos = Some (True, snd r1)"
                  "P nested pos (True, snd r1)"
                  by (cases r1; simp)+
                from NestedOk[OF ex tg Some n1' n2] n1 n2 True ex tg Some Cons
                show ?thesis by (simp add: checkStruct_Cons)
              next
                case False
                with k have rr: "r = (False, update_pos env (deref (ftype f)) (snd r1))"
                  by simp
                from False n1 have n1': "checkStruct env nested tag pos = Some (False, snd r1)"
                  "P nested pos (False, snd r1)"
                  by (cases r1; simp)+
                from NestedFail[OF ex tg Some n1'] n1 False ex tg Some Cons rr
                show ?thesis by (simp add: checkStruct_Cons)
              qed
            qed
          qed
        qed
      qed
    qed
  qed
  then show ?thesis by simp
qed

lemma checkStruct_true_pos:
  assumes "checkStruct env fs tag pos = Some r"
  shows "fst r \<Longrightarrow> snd r = pos"
  using assms by (induction rule: checkStruct_returns_induct) auto

lemma checkStruct_append:
  "checkStruct env (pre @ rest) tag pos =
     Option.bind (checkStruct env pre tag pos)
       (\<lambda>r. if fst r then checkStruct env rest tag (snd r) else Some r)"
proof (induction pre arbitrary: pos)
  case Nil
  show ?case by (simp add: checkStruct_Nil)
next
  case (Cons f pre)
  show ?case
  proof (cases "asStruct (Underlying env (deref (ftype f)))")
    case None
    then show ?thesis by (simp add: checkStruct_Cons Cons.IH)
  next
    case (Some nested)
    show ?thesis
    proof (cases "checkStruct env nested tag pos")
      case None
      with Some show ?thesis by (simp add: checkStruct_Cons Cons.IH)
    next
      case r: (Some r1)
      with Some show ?thesis by (simp add: checkStruct_Cons Cons.IH)
    qed
  qed
qed

lemma checkStruct_filter:
  "checkStruct env (filter exported fs) tag pos = checkStruct env fs tag pos"
proof (induction fs arbitrary: pos)
  case Nil
  show ?case by simp
next
  case (Cons f fs)
  show ?case
  proof (cases "exported f")
    case False
    then show ?thesis by (simp add: checkStruct_Cons [of env f fs] Cons.IH)
  next
    case True
    then show ?thesis
      by (simp add: checkStruct_Cons [of env f] Cons.IH split: option.splits cong: if_cong)
  qed
qed

lemma checkStruct_after_ok_prefix:
  assumes "checkStruct env pre tag pos = Some (True, pos)"
  shows "checkStruct env (pre @ fs) tag pos = checkStruct env fs tag pos"
  using assms by (simp add: checkStruct_append)

lemma checkStruct_nested_failure:
  assumes "exported f" and "is_tagged (ftag f) tag"
    and "asStruct (Underlying env (deref (ftype f))) = Some nested"
    and "checkStruct env nested tag pos = Some (False, p1)"
  shows "checkStruct env (f # rest) tag pos = Some (False, update_pos env (deref (ftype f)) p1)"
  using assms by (simp add: checkStruct_Cons)


text \<open>Evaluating the examples.\<close>

lemmas example_simps = is_tagged_def HasPrefix_def asStruct_def Underlying_def
  deref_def update_pos_def named_pos_def example_decls_def
  Node_fields_def Outer_fields_def Mid_fields_def Inner_fields_def Wrapper_fields_def
  Leaf_fields_def Good_fields_def

section \<open>Self-referential structs\<close>

text \<open>
  A struct is entered again when one of its exported, tagged fields has the struct itself
  as its type below at most one pointer. If the fields before that one are all skipped
  or pass without a nested struct, the call on the struct asks for the same call again,
  so it has no result.
\<close>

lemma self_nested_no_result:
  assumes pre: "\<forall>g \<in> set pre. \<not> exported g \<or>
              (is_tagged (ftag g) tag \<and> asStruct (Underlying env (deref (ftype g))) = None)"
    and ex: "exported f" and tg: "is_tagged (ftag f) tag"
    and self: "asStruct (Underlying env (deref (ftype f))) = Some (pre @ f # rest)"
  shows "checkStruct env (pre @ f # rest) tag pos = None"
proof (rule ccontr)
  assume "checkStruct env (pre @ f # rest) tag pos \<noteq> None"
  then obtain r where r: "checkStruct env (pre @ f # rest) tag pos = Some r" by auto
  let ?P = "\<lambda>fs (pos :: pos) (r :: bool \<times> pos). \<forall>p0 p1. pre = p0 @ p1 \<longrightarrow> fs \<noteq> p1 @ f # rest"
  from r have "?P (pre @ f # rest) pos r"
  proof (induction rule: checkStruct_returns_induct [where P = ?P])
    case Nil show ?case by simp
  next
    case (Skip g gs pos r)
    show ?case
    proof (intro allI impI notI)
      fix p0 p1 assume a: "pre = p0 @ p1" "g # gs = p1 @ f # rest"
      show False
      proof (cases p1)
        case Nil with a Skip ex show False by simp
      next
        case (Cons h p2)
        with a have "pre = (p0 @ [h]) @ p2" "gs = p2 @ f # rest" by simp_all
        with Skip(3) show False by blast
      qed
    qed
  next
    case (Untagged g gs pos)
    show ?case
    proof (intro allI impI notI)
      fix p0 p1 assume a: "pre = p0 @ p1" "g # gs = p1 @ f # rest"
      show False
      proof (cases p1)
        case Nil with a Untagged tg show False by simp
      next
        case (Cons h p2)
        with a have "g \<in> set pre" by simp
        with pre Untagged show False by blast
      qed
    qed
  next
    case (Plain g gs pos r)
    show ?case
    proof (intro allI impI notI)
      fix p0 p1 assume a: "pre = p0 @ p1" "g # gs = p1 @ f # rest"
      show False
      proof (cases p1)
        case Nil with a Plain self show False by simp
      next
        case (Cons h p2)
        with a have "pre = (p0 @ [h]) @ p2" "gs = p2 @ f # rest" by simp_all
        with Plain(5) show False by blast
      qed
    qed
  next
    case (NestedOk g gs pos nested p1' r)
    show ?case
    proof (intro allI impI notI)
      fix p0 p1 assume a: "pre = p0 @ p1" "g # gs = p1 @ f # rest"
      show False
      proof (cases p1)
        case Nil
        with a NestedOk self have "nested = pre @ f # rest" by simp
        with NestedOk(5) show False by blast
      next
        case (Cons h p2)
        with a have "g \<in> set pre" by simp
        with pre NestedOk show False by auto
      qed
    qed
  next
    case (NestedFail g gs pos nested p1')
    show ?case
    proof (intro allI impI notI)
      fix p0 p1 assume a: "pre = p0 @ p1" "g # gs = p1 @ f # rest"
      show False
      proof (cases p1)
        case Nil
        with a NestedFail self have "nested = pre @ f # rest" by simp
        with NestedFail(5) show False by blast
      next
        case (Cons h p2)
        with a have "g \<in> set pre" by simp
        with pre NestedFail show False by auto
      qed
    qed
  qed
  then show False by blast
qed

text \<open>
  Where no struct nests itself, every call returns: with well-ranked declarations
  \<open>checkStruct\<close> has a result on every field list.
\<close>

lemma field_names_deref: "field_names f = names_under (deref (ftype f))"
proof (cases f)
  case (Field name ex raw t)
  then show ?thesis by (cases t) (simp_all add: deref_def)
qed

lemma size_deref: "size (deref t) \<le> size t"
  by (cases t) (simp_all add: deref_def)

lemma checkStruct_returns_ranked:
  assumes wr: "well_ranked env rank"
  shows "(\<forall>m \<in> names_under (Struct fs). rank m < N) \<Longrightarrow> \<exists>r. checkStruct env fs tag pos = Some r"
proof (induction N arbitrary: fs pos rule: less_induct)
  case (less N)
  note outer = less.IH
  have inner: "(\<forall>m \<in> names_under (Struct gs). rank m < N) \<longrightarrow>
                 (\<forall>p. \<exists>r. checkStruct env gs tag p = Some r)" for gs
  proof (induction gs rule: measure_induct_rule [where f = "size_list size"])
    case (less fs)
    show ?case
    proof (intro impI allI)
      fix pos
      assume bound: "\<forall>m \<in> names_under (Struct fs). rank m < N"
      show "\<exists>r. checkStruct env fs tag pos = Some r"
      proof (cases fs)
        case Nil
        then show ?thesis using checkStruct_Nil by blast
      next
        case (Cons f rest)
        have bound_rest: "\<forall>m \<in> names_under (Struct rest). rank m < N"
          using bound Cons by simp
        have rest: "\<And>p. \<exists>r. checkStruct env rest tag p = Some r"
          using less.IH [of rest] bound_rest Cons by simp
        show ?thesis
        proof (cases "asStruct (Underlying env (deref (ftype f)))")
          case None
          with rest [of pos] Cons show ?thesis by (auto simp: checkStruct_Cons)
        next
          case (Some nested)
          have "\<exists>r1. checkStruct env nested tag pos = Some r1"
          proof (cases "deref (ftype f)")
            case (Struct nfs)
            with Some have n: "nested = nfs" by (simp add: asStruct_def Underlying_def)
            have "size (Struct nfs) \<le> size (ftype f)"
              using size_deref [of "ftype f"] Struct by simp
            then have "size_list size nested < size_list size fs"
              using n Cons by (cases f) simp
            moreover have "\<forall>m \<in> names_under (Struct nested). rank m < N"
              using bound Cons n Struct by (simp add: field_names_deref)
            ultimately show ?thesis using less.IH [of nested] by simp
          next
            case (Named n)
            with Some obtain d where d: "env n = Some d" "underlying_ty d = Struct nested"
              by (auto simp: asStruct_def Underlying_def Invalid_def
                  split: option.splits ty.splits)
            have "rank n < N" using bound Cons Named by (simp add: field_names_deref)
            moreover have "\<forall>m \<in> names_under (Struct nested). rank m < rank n"
              using wr d by (simp add: well_ranked_def)
            ultimately show ?thesis using outer [of "rank n" nested] by simp
          qed (use Some in \<open>simp_all add: asStruct_def Underlying_def\<close>)
          then obtain r1 where r1: "checkStruct env nested tag pos = Some r1" ..
          from rest [of "snd r1"] rest [of pos] r1 Some Cons show ?thesis
            by (auto simp: checkStruct_Cons)
        qed
      qed
    qed
  qed
  with less.prems show ?case by blast
qed

lemma example_decls_without_Node_well_ranked:
  "well_ranked (example_decls(''Node'' := None)) example_rank"
  by (auto simp: well_ranked_def example_decls_def example_rank_def Outer_fields_def
      Mid_fields_def Inner_fields_def Wrapper_fields_def Leaf_fields_def Good_fields_def
      split: if_splits)

text \<open>
  C1. The claim is that the verifier terminates on every struct type, a type that is
  already being verified counting as compliant when it is met again. \<open>checkStruct\<close>
  keeps no record of the types it is verifying. On \<^verbatim>\<open>Node\<close>, whose field
  \<^verbatim>\<open>Next *Node\<close> is exported and tagged, the call never returns, whatever the
  position, and so \<^verbatim>\<open>run\<close> on \<^verbatim>\<open>json.Marshal(node)\<close> gives no result.
\<close>

theorem self_reference_never_returns:
  "checkStruct example_decls Node_fields ''json'' pos = None \<and>
   run (example_pass\<lparr>calls := [marshal_node]\<rparr>) = None"
proof -
  let ?first = "Field ''Value'' True (''json:'' @ [CHR 0x22] @ ''value'' @ [CHR 0x22]) (Basic ''int'')"
  let ?second = "Field ''Next'' True (''json:'' @ [CHR 0x22] @ ''next'' @ [CHR 0x22]) (Pointer (Named ''Node''))"
  have "\<And>q. checkStruct example_decls ([?first] @ ?second # []) ''json'' q = None"
    by (rule self_nested_no_result) (simp_all add: example_simps)
  then have n: "\<And>q. checkStruct example_decls Node_fields ''json'' q = None"
    by (simp add: Node_fields_def)
  have t: "tagAndExpr marshal_node = Inr (Some (''json'', Ident ''node'' (Some 240)))"
    by (simp add: marshal_node_def tagAndExpr_def index_def jsonTag_def)
  have s: "structAndPos (example_pass\<lparr>calls := [marshal_node]\<rparr>) (Ident ''node'' (Some 240)) =
             Inr (Some (Node_fields, 100))"
    by (simp add: example_pass_def example_types_def structAndPos_def deref_def asStruct_def
        Underlying_def named_pos_def example_decls_def)
  have d: "type_decls (example_pass\<lparr>calls := [marshal_node]\<rparr>) = example_decls"
    by (simp add: example_pass_def)
  have "visit (example_pass\<lparr>calls := [marshal_node]\<rparr>) init_state marshal_node = None"
    by (simp add: visit_def t s d n)
  then have "run (example_pass\<lparr>calls := [marshal_node]\<rparr>) = None"
    by (simp add: run_def)
  with n show ?thesis by simp
qed

section \<open>Compliance\<close>




lemma compliant_checkStruct:
  assumes "compliant env tag fs"
  shows "checkStruct env fs tag pos = Some (True, pos)"
  using assms
proof (induction arbitrary: pos rule: compliant.induct)
  case (compliantI fs)
  have "\<And>gs. set gs \<subseteq> set fs \<Longrightarrow> checkStruct env gs tag pos = Some (True, pos)"
  proof -
    fix gs show "set gs \<subseteq> set fs \<Longrightarrow> checkStruct env gs tag pos = Some (True, pos)"
    proof (induction gs)
      case Nil
      show ?case by (simp add: checkStruct_Nil)
    next
      case (Cons g gs)
      then have g: "g \<in> set fs" and rest: "checkStruct env gs tag pos = Some (True, pos)"
        by simp_all
      show ?case
      proof (cases "exported g")
        case False
        with rest show ?thesis by (simp add: checkStruct_Cons)
      next
        case True
        with g compliantI.hyps(1) have t: "is_tagged (ftag g) tag" by blast
        show ?thesis
        proof (cases "asStruct (Underlying env (deref (ftype g)))")
          case None
          with True t rest show ?thesis by (simp add: checkStruct_Cons)
        next
          case (Some nested)
          from compliantI.IH [OF g True Some]
          have "checkStruct env nested tag pos = Some (True, pos)" .
          with Some True t rest show ?thesis by (simp add: checkStruct_Cons)
        qed
      qed
    qed
  qed
  then show ?case by simp
qed



text \<open>A struct that nests itself is not compliant: no finite number of steps of the
  rule establishes it.\<close>

lemma Node_not_compliant: "\<not> compliant example_decls ''json'' Node_fields"
proof
  assume "compliant example_decls ''json'' Node_fields"
  then have "checkStruct example_decls Node_fields ''json'' 0 = Some (True, 0)"
    by (rule compliant_checkStruct)
  moreover have "checkStruct example_decls
      ([Field ''Value'' True (''json:'' @ [CHR 0x22] @ ''value'' @ [CHR 0x22]) (Basic ''int'')] @
       Field ''Next'' True (''json:'' @ [CHR 0x22] @ ''next'' @ [CHR 0x22]) (Pointer (Named ''Node''))
       # []) ''json'' 0 = None"
    by (rule self_nested_no_result) (simp_all add: example_simps)
  ultimately show False by (simp add: Node_fields_def)
qed



section \<open>Reporting once\<close>

lemma visit_cases:
  assumes "visit p st c = Some (Inr st')"
  shows "st' = st \<or>
         (\<exists>k. k \<notin> reported st \<and>
              st' = \<lparr>reported = insert k (reported st), diagnostics = diagnostics st @ [k]\<rparr>)"
  using assms
  by (auto simp: visit_def split: sum.splits option.splits prod.splits if_splits)

lemma visit_emitted_once:
  assumes "visit p st c = Some (Inr st')"
    and "distinct (diagnostics st) \<and> set (diagnostics st) = reported st"
  shows "distinct (diagnostics st') \<and> set (diagnostics st') = reported st'"
  using visit_cases [OF assms(1)] assms(2)
  by auto

lemma preorder_emitted_once:
  "preorder p st cs = Some (Inr st') \<Longrightarrow>
   distinct (diagnostics st) \<and> set (diagnostics st) = reported st \<Longrightarrow>
   distinct (diagnostics st') \<and> set (diagnostics st') = reported st'"
proof (induction cs arbitrary: st)
  case Nil
  then show ?case by simp
next
  case (Cons c cs)
  from Cons.prems(1) obtain st1 where v: "visit p st c = Some (Inr st1)"
    and r: "preorder p st1 cs = Some (Inr st')"
    by (auto split: option.splits sum.splits)
  from visit_emitted_once [OF v Cons.prems(2)] Cons.IH [OF r] show ?case by simp
qed

lemma structAndPos_calls_update:
  "structAndPos (p\<lparr>calls := cs\<rparr>) e = structAndPos p e"
  by (simp add: structAndPos_def split: option.splits ty.splits)

lemma fails_at_calls_update:
  "fails_at (p\<lparr>calls := cs\<rparr>) c pos1 tag = fails_at p c pos1 tag"
  by (simp add: fails_at_def structAndPos_calls_update
      split: sum.splits option.splits prod.splits)

lemma visit_fails_at:
  assumes "fails_at p c pos1 tag"
  shows "visit p st c =
           Some (Inr (if (pos1, tag) \<in> reported st then st
                      else \<lparr>reported = insert (pos1, tag) (reported st),
                            diagnostics = diagnostics st @ [(pos1, tag)]\<rparr>))"
  using assms
  by (auto simp: fails_at_def visit_def split: sum.splits option.splits prod.splits)

lemma preorder_same_failure_seen:
  assumes "\<forall>c \<in> set cs. fails_at p c pos1 tag" and "(pos1, tag) \<in> reported st"
  shows "preorder p st cs = Some (Inr st)"
  using assms
proof (induction cs)
  case Nil
  show ?case by simp
next
  case (Cons c cs)
  then have "fails_at p c pos1 tag" by simp
  from visit_fails_at [OF this, of st] Cons show ?case by simp
qed

lemma preorder_same_failure:
  assumes "\<forall>c \<in> set cs. fails_at p c pos1 tag" and "cs \<noteq> []"
  shows "preorder p init_state cs =
           Some (Inr \<lparr>reported = {(pos1, tag)}, diagnostics = [(pos1, tag)]\<rparr>)"
proof (cases cs)
  case Nil with assms show ?thesis by simp
next
  case (Cons c rest)
  with assms have c: "fails_at p c pos1 tag" and rest: "\<forall>c \<in> set rest. fails_at p c pos1 tag"
    by simp_all
  have "visit p init_state c =
          Some (Inr \<lparr>reported = {(pos1, tag)}, diagnostics = [(pos1, tag)]\<rparr>)"
    by (simp add: visit_fails_at [OF c] init_state_def)
  moreover have "preorder p \<lparr>reported = {(pos1, tag)}, diagnostics = [(pos1, tag)]\<rparr> rest =
          Some (Inr \<lparr>reported = {(pos1, tag)}, diagnostics = [(pos1, tag)]\<rparr>)"
    by (rule preorder_same_failure_seen [OF rest]) simp
  ultimately show ?thesis using Cons by simp
qed

text \<open>
  C3. In one run a diagnostic is emitted at most once for a (position, tag) pair. After
  any number of visited calls the diagnostics emitted so far are pairwise distinct and
  are exactly the pairs in the set \<^verbatim>\<open>reported\<close>; a failing call whose pair is in the
  set changes nothing, one whose pair is not in the set adds the pair and emits one
  diagnostic; and when every call of a run fails at the same pair, the run ends with
  exactly one diagnostic.
\<close>

theorem diagnostics_reported_once:
  "(preorder p init_state cs = Some (Inr st) \<longrightarrow>
      distinct (diagnostics st) \<and> set (diagnostics st) = reported st) \<and>
   (fails_at p c pos1 tag \<and> (pos1, tag) \<in> reported st0 \<longrightarrow> visit p st0 c = Some (Inr st0)) \<and>
   (fails_at p c pos1 tag \<and> (pos1, tag) \<notin> reported st0 \<longrightarrow>
      visit p st0 c = Some (Inr \<lparr>reported = insert (pos1, tag) (reported st0),
                                  diagnostics = diagnostics st0 @ [(pos1, tag)]\<rparr>)) \<and>
   (calls p \<noteq> [] \<and> (\<forall>c \<in> set (calls p). fails_at p c pos1 tag) \<longrightarrow>
      run p = Some (Inr \<lparr>reported = {(pos1, tag)}, diagnostics = [(pos1, tag)]\<rparr>))"
proof (intro conjI impI)
  assume "preorder p init_state cs = Some (Inr st)"
  moreover have "distinct (diagnostics init_state) \<and>
      set (diagnostics init_state) = reported init_state"
    by (simp add: init_state_def)
  ultimately have "distinct (diagnostics st) \<and> set (diagnostics st) = reported st"
    by (rule preorder_emitted_once)
  then show "distinct (diagnostics st)" "set (diagnostics st) = reported st"
    by simp_all
next
  assume "fails_at p c pos1 tag \<and> (pos1, tag) \<in> reported st0"
  then show "visit p st0 c = Some (Inr st0)"
    using visit_fails_at [of p c pos1 tag st0] by simp
next
  assume "fails_at p c pos1 tag \<and> (pos1, tag) \<notin> reported st0"
  then show "visit p st0 c = Some (Inr \<lparr>reported = insert (pos1, tag) (reported st0),
                                  diagnostics = diagnostics st0 @ [(pos1, tag)]\<rparr>)"
    using visit_fails_at [of p c pos1 tag st0] by simp
next
  assume "calls p \<noteq> [] \<and> (\<forall>c \<in> set (calls p). fails_at p c pos1 tag)"
  then show "run p = Some (Inr \<lparr>reported = {(pos1, tag)}, diagnostics = [(pos1, tag)]\<rparr>)"
    unfolding run_def using preorder_same_failure by blast
qed

theorem diagnostics_reported_once_witness:
  "preorder example_pass init_state example_calls =
     Some (Inr \<lparr>reported = {(20, ''json'')}, diagnostics = [(20, ''json'')]\<rparr>) \<and>
   distinct [(20 :: pos, ''json'')] \<and>
   fails_at example_pass encode_outer 20 ''json'' \<and>
   visit example_pass \<lparr>reported = {(20, ''json'')}, diagnostics = [(20, ''json'')]\<rparr>
     encode_outer =
     Some (Inr \<lparr>reported = {(20, ''json'')}, diagnostics = [(20, ''json'')]\<rparr>) \<and>
   visit example_pass init_state encode_outer =
     Some (Inr \<lparr>reported = {(20, ''json'')}, diagnostics = [(20, ''json'')]\<rparr>) \<and>
   take 2 example_calls = [marshal_outer, encode_outer] \<and>
   fails_at example_pass marshal_outer 20 ''json'' \<and>
   run (example_pass\<lparr>calls := take 2 example_calls\<rparr>) =
     Some (Inr \<lparr>reported = {(20, ''json'')}, diagnostics = [(20, ''json'')]\<rparr>)"
proof -
  let ?st = "\<lparr>reported = {(20 :: pos, ''json'')}, diagnostics = [(20, ''json'')]\<rparr>"
  let ?p2 = "example_pass\<lparr>calls := take 2 example_calls\<rparr>"
  have o: "checkStruct example_decls Outer_fields ''json'' 10 = Some (False, 20)"
    by (simp add: example_simps checkStruct_Cons checkStruct_Nil)
  have g: "checkStruct example_decls Good_fields ''json'' 50 = Some (True, 50)"
    by (simp add: example_simps checkStruct_Cons checkStruct_Nil)
  have so: "structAndPos example_pass (Ident ''outer'' (Some 200)) = Inr (Some (Outer_fields, 10))"
    by (simp add: example_pass_def example_types_def structAndPos_def deref_def asStruct_def
        Underlying_def named_pos_def example_decls_def)
  have sg: "structAndPos example_pass (Ident ''good'' (Some 210)) = Inr (Some (Good_fields, 50))"
    by (simp add: example_pass_def example_types_def structAndPos_def deref_def asStruct_def
        Underlying_def named_pos_def example_decls_def)
  have d: "type_decls example_pass = example_decls" by (simp add: example_pass_def)
  have t0: "tagAndExpr marshal_outer = Inr (Some (''json'', Ident ''outer'' (Some 200)))"
    by (simp add: marshal_outer_def encode_outer_def marshal_good_def tagAndExpr_def index_def
        jsonTag_def)
  have t1: "tagAndExpr encode_outer = Inr (Some (''json'', Ident ''outer'' (Some 200)))"
    by (simp add: marshal_outer_def encode_outer_def marshal_good_def tagAndExpr_def index_def
        jsonTag_def)
  have t2: "tagAndExpr marshal_good = Inr (Some (''json'', Ident ''good'' (Some 210)))"
    by (simp add: marshal_outer_def encode_outer_def marshal_good_def tagAndExpr_def index_def
        jsonTag_def)
  have t3: "tagAndExpr println_good = Inr None"
    by (simp add: println_good_def tagAndExpr_def)
  have v0: "visit example_pass init_state marshal_outer = Some (Inr ?st)"
    by (simp add: visit_def t0 so d o init_state_def)
  have v1: "visit example_pass ?st encode_outer = Some (Inr ?st)"
    by (simp add: visit_def t1 so d o)
  have v2: "visit example_pass ?st marshal_good = Some (Inr ?st)"
    by (simp add: visit_def t2 sg d g)
  have v3: "visit example_pass ?st println_good = Some (Inr ?st)"
    by (simp add: visit_def t3)
  have pre: "preorder example_pass init_state example_calls = Some (Inr ?st)"
    by (simp add: example_calls_def v0 v1 v2 v3)
  have f0: "fails_at example_pass marshal_outer 20 ''json''"
    by (simp add: fails_at_def t0 so d o)
  have f1: "fails_at example_pass encode_outer 20 ''json''"
    by (simp add: fails_at_def t1 so d o)
  have tk: "take 2 example_calls = [marshal_outer, encode_outer]"
    by (simp add: example_calls_def)
  have f2: "fails_at ?p2 marshal_outer 20 ''json''"
    using f0 by (simp add: fails_at_calls_update)
  have f3: "fails_at ?p2 encode_outer 20 ''json''"
    using f1 by (simp add: fails_at_calls_update)
  have all2: "calls ?p2 \<noteq> [] \<and> (\<forall>c \<in> set (calls ?p2). fails_at ?p2 c 20 ''json'')"
    using f2 f3 by (simp add: tk)
  have a: "distinct (diagnostics ?st) \<and> set (diagnostics ?st) = reported ?st"
    using diagnostics_reported_once [of example_pass example_calls ?st] pre by blast
  have b: "visit example_pass ?st encode_outer = Some (Inr ?st)"
    using diagnostics_reported_once
      [of example_pass _ _ encode_outer 20 "''json''" ?st] f1 by simp
  have c: "visit example_pass init_state encode_outer = Some (Inr ?st)"
    using diagnostics_reported_once
      [of example_pass _ _ encode_outer 20 "''json''" init_state] f1
    by (simp add: init_state_def)
  have r: "run ?p2 = Some (Inr ?st)"
    using diagnostics_reported_once [of ?p2 _ _ _ 20 "''json''"] all2 by blast
  from pre a f0 f1 b c tk r show ?thesis by simp
qed

section \<open>The position after a nested failure\<close>

text \<open>
  C4, as amended. When the fields before \<open>f\<close> pass, \<open>f\<close> is exported and tagged, its
  type below at most one pointer is the named struct type \<open>n\<close>, and the verification of
  that struct fails, then the verification of the record fails and the position is the
  declaration of \<open>n\<close>, whatever position \<open>p1\<close> the nested verification left. Every
  level on the way out overwrites the position in this way, so the final position is
  the declaration of the named struct type nearest to the outermost record on the
  failing path.
\<close>

theorem nested_failure_reports_field_type:
  assumes "checkStruct env pre tag pos = Some (True, pos)"
    and "exported f" and "is_tagged (ftag f) tag"
    and "deref (ftype f) = Named n" and "env n = Some d" and "underlying_ty d = Struct nested"
    and "checkStruct env nested tag pos = Some (False, p1)"
  shows "checkStruct env (pre @ f # rest) tag pos = Some (False, obj_pos d)"
proof -
  have s: "asStruct (Underlying env (deref (ftype f))) = Some nested"
    using assms(4-6) by (simp add: asStruct_def Underlying_def)
  have "checkStruct env (f # rest) tag pos = Some (False, update_pos env (deref (ftype f)) p1)"
    using assms(2,3) s assms(7) by (rule checkStruct_nested_failure)
  also have "update_pos env (deref (ftype f)) p1 = obj_pos d"
    using assms(4,5) by (simp add: update_pos_def named_pos_def)
  finally show ?thesis
    using assms(1) by (simp add: checkStruct_after_ok_prefix)
qed

theorem nested_failure_reports_field_type_witness:
  "checkStruct example_decls [] ''json'' 10 = Some (True, 10) \<and>
   exported (hd Outer_fields) \<and> is_tagged (ftag (hd Outer_fields)) ''json'' \<and>
   deref (ftype (hd Outer_fields)) = Named ''Mid'' \<and>
   example_decls ''Mid'' = Some \<lparr>obj_pos = 20, underlying_ty = Struct Mid_fields\<rparr> \<and>
   checkStruct example_decls Mid_fields ''json'' 10 = Some (False, 30) \<and>
   checkStruct example_decls ([] @ hd Outer_fields # []) ''json'' 10 = Some (False, 20)"
proof -
  have 1: "checkStruct example_decls [] ''json'' 10 = Some (True, 10)"
    by (simp add: checkStruct_Nil)
  have 2: "exported (hd Outer_fields)" by (simp add: Outer_fields_def)
  have 3: "is_tagged (ftag (hd Outer_fields)) ''json''" by (simp add: example_simps)
  have 4: "deref (ftype (hd Outer_fields)) = Named ''Mid''" by (simp add: example_simps)
  have 5: "example_decls ''Mid'' = Some \<lparr>obj_pos = 20, underlying_ty = Struct Mid_fields\<rparr>"
    by (simp add: example_decls_def)
  have 6: "underlying_ty \<lparr>obj_pos = 20, underlying_ty = Struct Mid_fields\<rparr> = Struct Mid_fields"
    by simp
  have 7: "checkStruct example_decls Mid_fields ''json'' 10 = Some (False, 30)"
    by (simp add: example_simps checkStruct_Cons checkStruct_Nil)
  from nested_failure_reports_field_type [OF 1 2 3 4 5 6 7, of "[]"] 1 2 3 4 5 7
  show ?thesis by simp
qed

text \<open>
  The claim as stated, that the final position is the declaration of the deepest
  non-compliant named struct, fails two levels down: \<^verbatim>\<open>Outer\<close> nests \<^verbatim>\<open>Mid\<close>,
  \<^verbatim>\<open>Mid\<close> nests \<^verbatim>\<open>Inner\<close>, and only \<^verbatim>\<open>Inner\<close> has an untagged field. Verifying
  \<^verbatim>\<open>Mid\<close> leaves the declaration of \<^verbatim>\<open>Inner\<close>; verifying \<^verbatim>\<open>Outer\<close> leaves the
  declaration of \<^verbatim>\<open>Mid\<close>.
\<close>

theorem deepest_offender_counterexample:
  "checkStruct example_decls Inner_fields ''json'' 10 = Some (False, 10) \<and>
   checkStruct example_decls Mid_fields ''json'' 10 = Some (False, named_pos example_decls ''Inner'') \<and>
   checkStruct example_decls Outer_fields ''json'' 10 = Some (False, named_pos example_decls ''Mid'') \<and>
   checkStruct example_decls Outer_fields ''json'' 10 \<noteq> Some (False, named_pos example_decls ''Inner'')"
  by (simp add: example_simps checkStruct_Cons checkStruct_Nil)

section \<open>Short circuit\<close>



section \<open>Unexported fields\<close>

text \<open>
  C6. Fields that are not exported never affect the verification: two field lists that
  differ only in their unexported fields (which ones there are, their names, tags and
  types) have the same exported fields in the same order, and \<open>checkStruct\<close> then
  behaves the same on both, in the flag, in the position and in whether it returns.
\<close>

theorem unexported_fields_irrelevant:
  "filter exported fs1 = filter exported fs2 \<Longrightarrow>
   checkStruct env fs1 tag pos = checkStruct env fs2 tag pos"
  using checkStruct_filter [of env fs1 tag pos] checkStruct_filter [of env fs2 tag pos]
  by simp

theorem unexported_fields_irrelevant_witness:
  "filter exported Good_fields =
     filter exported (Field ''secret'' False ''json:x'' (Named ''Node'') # take 2 Good_fields) \<and>
   checkStruct example_decls Good_fields ''json'' 50 =
     checkStruct example_decls
       (Field ''secret'' False ''json:x'' (Named ''Node'') # take 2 Good_fields) ''json'' 50"
  using unexported_fields_irrelevant
    [of Good_fields "Field ''secret'' False ''json:x'' (Named ''Node'') # take 2 Good_fields"
        example_decls "''json''" 50]
  by (simp add: Good_fields_def)

section \<open>Tagged fields\<close>

lemma tokens_Nil: "tokens sep [] = [[]]"
  by (simp add: tokens.simps)

lemma tokens_Cons:
  "tokens sep (c # s) =
     (if sep c then [] # tokens sep s
      else (case tokens sep s of [] \<Rightarrow> [[c]] | t # ts \<Rightarrow> (c # t) # ts))"
proof (cases "sep c")
  case True
  then show ?thesis by (simp add: tokens.simps [of sep "c # s"])
next
  case False
  then show ?thesis
    by (simp add: tokens.simps [of sep "c # s"] tokens.simps [of sep s])
qed

lemma Split_tokens: "Split s c = tokens (\<lambda>x. x = c) s"
  by (induction s) (simp_all add: tokens_Nil tokens_Cons)

lemma HasPrefix_prefix: "HasPrefix s p \<longleftrightarrow> prefix p s"
proof
  assume "HasPrefix s p"
  then have "s = p @ drop (length p) s"
    by (metis HasPrefix_def append_take_drop_id)
  then show "prefix p s" by (metis prefixI)
next
  assume "prefix p s"
  then obtain zs where "s = p @ zs" by (auto simp: prefix_def)
  then show "HasPrefix s p" by (simp add: HasPrefix_def)
qed

lemma fold_flag:
  "fold (\<lambda>t tagged. if Q t then True else tagged) ts b \<longleftrightarrow> b \<or> (\<exists>t \<in> set ts. Q t)"
  by (induction ts arbitrary: b) auto

lemma tokens_no_sep: "t \<in> set (tokens sep s) \<Longrightarrow> c \<in> set t \<Longrightarrow> \<not> sep c"
proof (induction s arbitrary: t)
  case Nil
  then show ?case by (simp add: tokens_Nil)
next
  case (Cons a s)
  show ?case
  proof (cases "sep a")
    case True
    with Cons show ?thesis by (auto simp: tokens_Cons)
  next
    case False
    show ?thesis
    proof (cases "tokens sep s")
      case Nil
      with False Cons.prems show ?thesis by (auto simp: tokens_Cons)
    next
      case (Cons u us)
      with False Cons.prems Cons.IH [of u] Cons.IH [of t] show ?thesis
        by (auto simp: tokens_Cons)
    qed
  qed
qed

lemma tokens_join: "concat (map (\<lambda>t. t @ [c]) (tokens (\<lambda>x. x = c) s)) = s @ [c]"
  by (induction s) (auto simp: tokens_Nil tokens_Cons split: list.splits)

text \<open>
  C7, as amended. A field counts as tagged for a key exactly when one of the tokens of
  its tag string, split at the space character, starts with the key followed by a
  colon.
\<close>

theorem tagged_iff_space_separated_token:
  "is_tagged raw key \<longleftrightarrow> has_token (\<lambda>c. c = CHR '' '') raw key"
  by (simp add: is_tagged_def has_token_def fold_flag HasPrefix_prefix Split_tokens)

theorem tagged_iff_space_separated_token_witness:
  "is_tagged (ftag (hd Leaf_fields)) ''json'' \<and>
   has_token (\<lambda>c. c = CHR '' '') (ftag (hd Leaf_fields)) ''json'' \<and>
   \<not> is_tagged tab_tag ''json'' \<and> \<not> has_token (\<lambda>c. c = CHR '' '') tab_tag ''json''"
  using tagged_iff_space_separated_token [of "ftag (hd Leaf_fields)" "''json''"]
    tagged_iff_space_separated_token [of tab_tag "''json''"]
  by (simp add: Leaf_fields_def tab_tag_def is_tagged_def HasPrefix_def)

text \<open>
  The claim as stated splits on whitespace. A tab is whitespace and not a space: the tag
  \<^verbatim>\<open>xml:"id"<TAB>json:"id"\<close> has the whitespace-separated token \<^verbatim>\<open>json:"id"\<close>,
  and the code does not count the field as tagged.
\<close>

theorem whitespace_token_counterexample:
  "has_token is_space tab_tag ''json'' \<and> \<not> is_tagged tab_tag ''json''"
  by (simp add: tab_tag_def has_token_def is_space_def tokens_Nil tokens_Cons is_tagged_def
      HasPrefix_def)

section \<open>The call matcher\<close>

lemma tagAndExpr_unknown:
  "static_callee call = None \<or>
   (\<exists>n. static_callee call = Some n \<and>
      n \<notin> {''encoding/json.Marshal'', ''encoding/json.MarshalIndent'',
            ''(*encoding/json.Encoder).Encode'', ''(*encoding/json.Decoder).Decode'',
            ''encoding/json.Unmarshal''}) \<Longrightarrow>
   tagAndExpr call = Inr None"
  by (auto simp: tagAndExpr_def split: option.splits)

lemma tagAndExpr_first_argument:
  "static_callee call = Some n \<Longrightarrow>
   n \<in> {''encoding/json.Marshal'', ''encoding/json.MarshalIndent'',
         ''(*encoding/json.Encoder).Encode'', ''(*encoding/json.Decoder).Decode''} \<Longrightarrow>
   tagAndExpr call =
     (if 0 < length (Args call) then Inr (Some (''json'', Args call ! 0)) else Inl IndexOutOfRange)"
  by (auto simp: tagAndExpr_def index_def jsonTag_def)

lemma tagAndExpr_second_argument:
  "static_callee call = Some ''encoding/json.Unmarshal'' \<Longrightarrow>
   tagAndExpr call =
     (if 1 < length (Args call) then Inr (Some (''json'', Args call ! 1)) else Inl IndexOutOfRange)"
  by (auto simp: tagAndExpr_def index_def jsonTag_def)

text \<open>
  C8. The claim is that the matcher never fails and answers "no match" when the call has
  too few arguments for the configured index. \<open>tagAndExpr\<close> indexes the arguments
  without looking at their number: on \<^verbatim>\<open>json.Unmarshal(pair())\<close>, a valid call with a
  single argument expression, \<^verbatim>\<open>call.Args[1]\<close> is out of range and the run panics.
\<close>

theorem unmarshal_single_argument_panics:
  "tagAndExpr unmarshal_pair = Inl IndexOutOfRange \<and>
   visit example_pass init_state unmarshal_pair = Some (Inl IndexOutOfRange)"
  by (simp add: unmarshal_pair_def tagAndExpr_def index_def visit_def)

section \<open>The type resolver\<close>




section \<open>The position as a frame\<close>

lemma checkStruct_pos_change:
  assumes "checkStruct env fs tag pos = Some r"
  shows "snd r \<noteq> pos \<longrightarrow>
           (\<exists>n nested q q'. snd r = named_pos env n \<and>
              asStruct (Underlying env (Named n)) = Some nested \<and>
              checkStruct env nested tag q = Some (False, q'))"
  using assms
proof (induction rule: checkStruct_returns_induct)
  case (NestedOk f rest pos nested p1 r)
  from checkStruct_true_pos [OF NestedOk(4)] have "p1 = pos" by simp
  with NestedOk(7) show ?case by simp
next
  case (NestedFail f rest pos nested p1)
  show ?case
  proof (cases "deref (ftype f)")
    case (Named n)
    with NestedFail(3,4) show ?thesis
      by (auto simp: update_pos_def)
  qed (use NestedFail in \<open>auto simp: update_pos_def\<close>)
qed auto

text \<open>
  C10, as amended. Whenever \<open>checkStruct\<close> returns: if it returns true the position is as
  on entry; a position that differs from the one on entry is the declaration of a named
  struct type whose verification failed; if the failure is an untagged field of the
  record itself the position is as on entry; and if the failing nested struct is
  anonymous this level writes nothing, so the position is the one the nested
  verification left.
\<close>

theorem position_frame:
  assumes "checkStruct env fs tag pos = Some (ok, pos')"
  shows "(ok \<longrightarrow> pos' = pos) \<and>
    (pos' \<noteq> pos \<longrightarrow>
       (\<exists>n nested q q'. pos' = named_pos env n \<and>
          asStruct (Underlying env (Named n)) = Some nested \<and>
          checkStruct env nested tag q = Some (False, q'))) \<and>
    (\<forall>pre f rest. fs = pre @ f # rest \<and> checkStruct env pre tag pos = Some (True, pos) \<and>
        exported f \<and> \<not> is_tagged (ftag f) tag \<longrightarrow> \<not> ok \<and> pos' = pos) \<and>
    (\<forall>pre f rest nested p1. fs = pre @ f # rest \<and>
        checkStruct env pre tag pos = Some (True, pos) \<and>
        exported f \<and> is_tagged (ftag f) tag \<and> deref (ftype f) = Struct nested \<and>
        checkStruct env nested tag pos = Some (False, p1) \<longrightarrow> \<not> ok \<and> pos' = p1)"
proof (intro conjI allI impI)
  assume ok then show "pos' = pos"
    using checkStruct_true_pos [OF assms] by simp
next
  assume "pos' \<noteq> pos"
  then show "\<exists>n nested q q'. pos' = named_pos env n \<and>
          asStruct (Underlying env (Named n)) = Some nested \<and>
          checkStruct env nested tag q = Some (False, q')"
    using checkStruct_pos_change [OF assms] by simp
next
  fix pre f rest
  assume a: "fs = pre @ f # rest \<and> checkStruct env pre tag pos = Some (True, pos) \<and>
        exported f \<and> \<not> is_tagged (ftag f) tag"
  then have "checkStruct env fs tag pos = Some (False, pos)"
    by (simp add: checkStruct_after_ok_prefix checkStruct_Cons)
  with assms show "\<not> ok" "pos' = pos" by simp_all
next
  fix pre f rest nested p1
  assume a: "fs = pre @ f # rest \<and>
        checkStruct env pre tag pos = Some (True, pos) \<and>
        exported f \<and> is_tagged (ftag f) tag \<and> deref (ftype f) = Struct nested \<and>
        checkStruct env nested tag pos = Some (False, p1)"
  then have "checkStruct env fs tag pos = Some (False, p1)"
    by (simp add: checkStruct_after_ok_prefix checkStruct_Cons asStruct_def Underlying_def
        update_pos_def)
  with assms show "\<not> ok" "pos' = p1" by simp_all
qed

theorem position_frame_witness:
  "checkStruct example_decls Good_fields ''json'' 50 = Some (True, 50) \<and>
   checkStruct example_decls Wrapper_fields ''json'' 40 = Some (False, 30) \<and>
   (\<exists>n nested q q'. (30 :: pos) = named_pos example_decls n \<and>
      asStruct (Underlying example_decls (Named n)) = Some nested \<and>
      checkStruct example_decls nested ''json'' q = Some (False, q')) \<and>
   checkStruct example_decls Inner_fields ''json'' 40 = Some (False, 40) \<and>
   exported (hd Inner_fields) \<and> \<not> is_tagged (ftag (hd Inner_fields)) ''json'' \<and>
   exported (hd Wrapper_fields) \<and> is_tagged (ftag (hd Wrapper_fields)) ''json'' \<and>
   deref (ftype (hd Wrapper_fields)) =
     Struct [Field ''Inner'' True (''json:'' @ [CHR 0x22] @ ''inner'' @ [CHR 0x22]) (Named ''Inner'')] \<and>
   checkStruct example_decls
     [Field ''Inner'' True (''json:'' @ [CHR 0x22] @ ''inner'' @ [CHR 0x22]) (Named ''Inner'')]
     ''json'' 40 = Some (False, 30)"
proof -
  let ?in = "[Field ''Inner'' True (''json:'' @ [CHR 0x22] @ ''inner'' @ [CHR 0x22]) (Named ''Inner'')]"
  have g: "checkStruct example_decls Good_fields ''json'' 50 = Some (True, 50)"
    by (simp add: example_simps checkStruct_Cons checkStruct_Nil)
  have w: "checkStruct example_decls Wrapper_fields ''json'' 40 = Some (False, 30)"
    by (simp add: example_simps checkStruct_Cons checkStruct_Nil)
  have i: "checkStruct example_decls Inner_fields ''json'' 40 = Some (False, 40)"
    by (simp add: example_simps checkStruct_Cons checkStruct_Nil)
  have n: "checkStruct example_decls ?in ''json'' 40 = Some (False, 30)"
    by (simp add: example_simps checkStruct_Cons checkStruct_Nil)
  have ie: "exported (hd Inner_fields)" "\<not> is_tagged (ftag (hd Inner_fields)) ''json''"
    by (simp_all add: example_simps)
  have we: "exported (hd Wrapper_fields)" "is_tagged (ftag (hd Wrapper_fields)) ''json''"
    "deref (ftype (hd Wrapper_fields)) = Struct ?in"
    by (simp_all add: example_simps)
  have b: "\<exists>n nested q q'. (30 :: pos) = named_pos example_decls n \<and>
      asStruct (Underlying example_decls (Named n)) = Some nested \<and>
      checkStruct example_decls nested ''json'' q = Some (False, q')"
    using position_frame [OF w] by simp
  from g w b i ie we n show ?thesis by blast
qed

text \<open>
  The claim as stated leaves the position unchanged whenever the failing nested struct
  is anonymous. The only field of \<^verbatim>\<open>Wrapper\<close> has an anonymous struct type, whose
  field of type \<^verbatim>\<open>Inner\<close> fails: the verification of \<^verbatim>\<open>Wrapper\<close>, entered with
  position 40, fails on that anonymous struct and leaves 30, the declaration of
  \<^verbatim>\<open>Inner\<close>.
\<close>

theorem anonymous_failure_counterexample:
  "deref (ftype (hd Wrapper_fields)) =
     Struct [Field ''Inner'' True (''json:'' @ [CHR 0x22] @ ''inner'' @ [CHR 0x22]) (Named ''Inner'')] \<and>
   checkStruct example_decls Wrapper_fields ''json'' 40 = Some (False, 30) \<and> (30 :: pos) \<noteq> 40"
  by (simp add: example_simps checkStruct_Cons checkStruct_Nil)

end
